theory Spec2Isabelle
  imports Main "HOL-Library.AList"
begin

section \<open>The rate-limit middleware (src/middleware/rate-limit.middleware.ts)\<close>

text \<open>
  The middleware counts requests per key in a fixed window. It has two paths: a
  process-local counter map (\<open>inMemoryRateLimit\<close>) and a Redis path inside the handler
  that \<open>rateLimit\<close> returns, with a fallback from the second to the first.

  Numbers: the source's numbers are counts and millisecond timestamps; they are modelled
  as \<open>int\<close>. Values kept in Redis are the decimal strings that the middleware writes
  with \<open>String(n)\<close> and reads back with \<open>parseInt\<close>; the model keeps the integer
  itself, so a stored value is truthy exactly when it is present. Header values are
  the integers passed to \<open>String\<close>.
\<close>

subsection \<open>Request context and response\<close>

record Context =
  req_headers :: "(string \<times> string) list"

definition req_header :: "Context \<Rightarrow> string \<Rightarrow> string option" where
  "req_header c name = map_of (req_headers c) name"

text \<open>
  A handler ends either in \<open>return await next()\<close>, after the calls of \<open>c.header\<close>
  listed in the constructor, or in \<open>return handler(c, next)\<close>, the rejection
  handler (by default the 429 response), with no header set.
\<close>

datatype response = CallNext "(string \<times> int) list" | CallHandler

definition header :: "string \<Rightarrow> int \<Rightarrow> (string \<times> int) list \<Rightarrow> (string \<times> int) list" where
  "header name v hs = AList.update name v hs"

text \<open>The three \<open>c.header\<close> calls, in the order of the source.\<close>

definition set_headers :: "int \<Rightarrow> int \<Rightarrow> int \<Rightarrow> (string \<times> int) list" where
  "set_headers limit remaining reset =
     header ''X-RateLimit-Reset'' reset
       (header ''X-RateLimit-Remaining'' remaining
         (header ''X-RateLimit-Limit'' limit []))"

subsection \<open>The in-memory store\<close>

record entry =
  count :: int
  resetTime :: int

text \<open>
  \<open>inMemoryStore\<close> is a JavaScript \<open>Map\<close>: an association list in insertion order,
  \<open>get\<close> is \<open>map_of\<close>, \<open>set\<close> is \<open>AList.update\<close> (an existing key keeps its place,
  a new key goes to the end).
\<close>

type_synonym store = "(string \<times> entry) list"

text \<open>The loop of lines 131-135: every entry with \<open>now > data.resetTime\<close> is deleted.\<close>

fun cleanup :: "int \<Rightarrow> store \<Rightarrow> store" where
  "cleanup now [] = []"
| "cleanup now ((storedKey, data) # rest) =
     (if now > resetTime data then cleanup now rest
      else (storedKey, data) # cleanup now rest)"

definition inMemoryRateLimit ::
  "string \<Rightarrow> int \<Rightarrow> int \<Rightarrow> int \<Rightarrow> store \<Rightarrow> response \<times> store" where
  "inMemoryRateLimit key windowMs max_req now store0 =
     (let store = cleanup now store0 in
      case map_of store key of
        None \<Rightarrow>
          (CallNext (set_headers max_req (max_req - 1) (now + windowMs)),
           AList.update key \<lparr>count = 1, resetTime = now + windowMs\<rparr> store)
      | Some data \<Rightarrow>
          if now > resetTime data then
            (CallNext (set_headers max_req (max_req - 1) (now + windowMs)),
             AList.update key \<lparr>count = 1, resetTime = now + windowMs\<rparr> store)
          else
            let data' = data\<lparr>count := count data + 1\<rparr>;
                store' = AList.update key data' store
            in if count data' > max_req then (CallHandler, store')
               else (CallNext (set_headers max_req (max 0 (max_req - count data')) (resetTime data')),
                     store'))"

subsection \<open>Redis\<close>

text \<open>
  The Redis server as the middleware uses it: \<open>GET\<close>, \<open>SET\<close> and \<open>EXPIRE\<close> on
  string keys. A key may carry an expiry instant (milliseconds); a key whose expiry
  instant lies before the server's clock is gone. \<open>SET\<close> without options drops the
  expiry of the key; \<open>EXPIRE\<close> with a timeout that is not positive deletes the key.
  The server's clock is taken to show what the request read with \<open>Date.now()\<close>.
\<close>

record redis_val =
  val :: int
  expireAt :: "int option"

type_synonym redis_db = "string \<Rightarrow> redis_val option"

definition redis_live :: "redis_db \<Rightarrow> int \<Rightarrow> string \<Rightarrow> redis_val option" where
  "redis_live db now k =
     (case db k of
        None \<Rightarrow> None
      | Some e \<Rightarrow>
          (case expireAt e of
             None \<Rightarrow> Some e
           | Some t \<Rightarrow> if now > t then None else Some e))"

definition redis_get :: "redis_db \<Rightarrow> int \<Rightarrow> string \<Rightarrow> int option" where
  "redis_get db now k = map_option val (redis_live db now k)"

definition redis_set :: "redis_db \<Rightarrow> string \<Rightarrow> int \<Rightarrow> redis_db" where
  "redis_set db k v = db(k \<mapsto> \<lparr>val = v, expireAt = None\<rparr>)"

definition redis_expire :: "redis_db \<Rightarrow> int \<Rightarrow> string \<Rightarrow> int \<Rightarrow> redis_db" where
  "redis_expire db now k seconds =
     (case redis_live db now k of
        None \<Rightarrow> db
      | Some e \<Rightarrow>
          if seconds \<le> 0 then db(k := None)
          else db(k \<mapsto> e\<lparr>expireAt := Some (now + seconds * 1000)\<rparr>))"

text \<open>\<open>Math.ceil(windowMs / 1000)\<close> on an integer \<open>windowMs\<close>.\<close>

definition ceil_seconds :: "int \<Rightarrow> int" where
  "ceil_seconds windowMs = - ((- windowMs) div 1000)"

subsection \<open>Options and construction (lines 22-58)\<close>

record options =
  opt_windowMs :: "int option"
  opt_max :: "int option"
  opt_keyGenerator :: "(Context \<Rightarrow> string) option"
  opt_useRedis :: "bool option"

text \<open>
  The environment of \<open>config/env\<close>: the two rate-limit strings as the integers that
  \<open>parseInt\<close> reads from them, and the optional Redis URL.
\<close>

record env =
  RATE_LIMIT_WINDOW_MS :: int
  RATE_LIMIT_MAX_REQUESTS :: int
  REDIS_URL :: "string option"

record limiter =
  windowMs :: int
  max_req :: int
  keyGenerator :: "Context \<Rightarrow> string"
  redisClient :: bool

text \<open>\<open>a || b\<close> on an optional number: \<open>undefined\<close> and \<open>0\<close> are falsy.\<close>

definition or_number :: "int option \<Rightarrow> int \<Rightarrow> int" where
  "or_number a b = (case a of None \<Rightarrow> b | Some v \<Rightarrow> if v = 0 then b else v)"

definition default_keyGenerator :: "Context \<Rightarrow> string" where
  "default_keyGenerator c =
     (let ip = (case req_header c ''x-forwarded-for'' of
                  None \<Rightarrow> ''unknown''
                | Some h \<Rightarrow> if h = [] then ''unknown'' else h)
      in ''rate-limit:'' @ ip)"

text \<open>
  \<open>rateLimit(options)\<close> up to the returned handler. \<open>created\<close> says whether
  \<open>createClient\<close> returned a client (it is inside a \<open>try\<close>).
\<close>

definition rateLimit :: "env \<Rightarrow> bool \<Rightarrow> options \<Rightarrow> limiter" where
  "rateLimit e created opts =
     \<lparr>windowMs = or_number (opt_windowMs opts) (RATE_LIMIT_WINDOW_MS e),
      max_req = or_number (opt_max opts) (RATE_LIMIT_MAX_REQUESTS e),
      keyGenerator = (case opt_keyGenerator opts of None \<Rightarrow> default_keyGenerator | Some g \<Rightarrow> g),
      redisClient =
        (opt_useRedis opts = Some True
         \<and> (case REDIS_URL e of None \<Rightarrow> False | Some u \<Rightarrow> u \<noteq> [])
         \<and> created)\<rparr>"

subsection \<open>The returned middleware (lines 60-116)\<close>

text \<open>
  The Redis commands a request can issue. A request carries, besides its context, what
  the handler reads from outside: whether the client is ready, which of its commands
  fail (a failed command rejects its promise and leaves the server unchanged), and the
  two readings of \<open>Date.now()\<close> (line 68 and line 128).
\<close>

datatype redis_cmd =
  GET_count | GET_reset | SET_one | SET_reset | EXPIRE_count | EXPIRE_reset | SET_newCount

record request =
  ctx :: Context
  isReady :: bool
  fails :: "redis_cmd \<Rightarrow> bool"
  now_shared :: int
  now_local :: int

record state =
  inMemoryStore :: store
  redis :: redis_db

text \<open>Lines 72-75: the two \<open>GET\<close>s; \<open>None\<close> when the \<open>Promise.all\<close> rejects.\<close>

definition redis_read :: "limiter \<Rightarrow> request \<Rightarrow> redis_db \<Rightarrow> (int option \<times> int option) option" where
  "redis_read L r db =
     (let key = keyGenerator L (ctx r); resetTimeKey = key @ '':reset'' in
      if fails r GET_count \<or> fails r GET_reset then None
      else Some (redis_get db (now_shared r) key, redis_get db (now_shared r) resetTimeKey))"

text \<open>
  Lines 77-99, from the values read. The response is \<open>None\<close> when a command rejects,
  which the \<open>catch\<close> of line 100 turns into the in-memory fallback.
\<close>

definition redis_decide ::
  "limiter \<Rightarrow> request \<Rightarrow> int option \<times> int option \<Rightarrow> redis_db \<Rightarrow> response option \<times> redis_db" where
  "redis_decide L r rd db =
     (let now = now_shared r;
          key = keyGenerator L (ctx r);
          resetTimeKey = key @ '':reset'';
          resetTime = (case snd rd of Some t \<Rightarrow> t | None \<Rightarrow> now + windowMs L)
      in
      if now > resetTime then
        let db1 = (if fails r SET_one then db else redis_set db key 1);
            db2 = (if fails r SET_reset then db1 else redis_set db1 resetTimeKey (now + windowMs L));
            db3 = (if fails r EXPIRE_count then db2
                   else redis_expire db2 now key (ceil_seconds (windowMs L)));
            db4 = (if fails r EXPIRE_reset then db3
                   else redis_expire db3 now resetTimeKey (ceil_seconds (windowMs L)))
        in if fails r SET_one \<or> fails r SET_reset \<or> fails r EXPIRE_count \<or> fails r EXPIRE_reset
           then (None, db4)
           else (Some (CallNext (set_headers (max_req L) (max_req L - 1) resetTime)), db4)
      else
        let newCount = (case fst rd of Some c \<Rightarrow> c + 1 | None \<Rightarrow> 1);
            remainingRequests = max 0 (max_req L - newCount)
        in if newCount > max_req L then (Some CallHandler, db)
           else if fails r SET_newCount then (None, db)
           else (Some (CallNext (set_headers (max_req L) remainingRequests resetTime)),
                 redis_set db key newCount))"

text \<open>The call of \<open>inMemoryRateLimit\<close> from the handler (lines 103 and 107).\<close>

definition local_path :: "limiter \<Rightarrow> request \<Rightarrow> state \<Rightarrow> response \<times> state" where
  "local_path L r s =
     (let (resp, store') =
            inMemoryRateLimit (keyGenerator L (ctx r)) (windowMs L) (max_req L) (now_local r)
              (inMemoryStore s)
      in (resp, s\<lparr>inMemoryStore := store'\<rparr>))"

text \<open>
  The \<open>try\<close> block of lines 67-99 with its \<open>catch\<close> (lines 100-104), followed by
  lines 110-115 when no promise rejects.
\<close>

definition shared_path :: "limiter \<Rightarrow> request \<Rightarrow> state \<Rightarrow> response \<times> state" where
  "shared_path L r s =
     (case redis_read L r (redis s) of
        None \<Rightarrow> local_path L r s
      | Some rd \<Rightarrow>
          (case redis_decide L r rd (redis s) of
             (None, db') \<Rightarrow> local_path L r (s\<lparr>redis := db'\<rparr>)
           | (Some resp, db') \<Rightarrow> (resp, s\<lparr>redis := db'\<rparr>)))"

definition middleware :: "limiter \<Rightarrow> request \<Rightarrow> state \<Rightarrow> response \<times> state" where
  "middleware L r s =
     (if redisClient L \<and> isReady r then shared_path L r s else local_path L r s)"

text \<open>A sequence of requests, one after the other.\<close>

fun run :: "limiter \<Rightarrow> request list \<Rightarrow> state \<Rightarrow> response list \<times> state" where
  "run L [] s = ([], s)"
| "run L (r # rs) s =
     (let (resp, s1) = middleware L r s; (resps, s2) = run L rs s1 in (resp # resps, s2))"

subsection \<open>Requests in flight at the same time\<close>

text \<open>
  The handler is an \<open>async\<close> function: it runs without interruption from one
  \<open>await\<close> to the next. On the Redis path there are two points at which it touches the
  shared store, with an \<open>await\<close> between them: the two \<open>GET\<close>s of lines 72-75, and the
  writes of lines 81-86 or line 98, decided from the values read before. Another
  request can run between the two. The local path has no \<open>await\<close> before its decision:
  \<open>inMemoryRateLimit\<close> reads and writes the map in one piece.

  A task is a request that has not started, one that has read and waits at its second
  step with the values it read, or one that has its response.
\<close>

datatype task = Pending request | HasRead request "int option \<times> int option" | Finished response

definition step :: "limiter \<Rightarrow> task \<Rightarrow> state \<Rightarrow> task \<times> state" where
  "step L t s =
     (case t of
        Pending r \<Rightarrow>
          if redisClient L \<and> isReady r then
            (case redis_read L r (redis s) of
               None \<Rightarrow> (let (resp, s') = local_path L r s in (Finished resp, s'))
             | Some rd \<Rightarrow> (HasRead r rd, s))
          else (let (resp, s') = local_path L r s in (Finished resp, s'))
      | HasRead r rd \<Rightarrow>
          (case redis_decide L r rd (redis s) of
             (None, db') \<Rightarrow> (let (resp, s') = local_path L r (s\<lparr>redis := db'\<rparr>) in (Finished resp, s'))
           | (Some resp, db') \<Rightarrow> (Finished resp, s\<lparr>redis := db'\<rparr>))
      | Finished resp \<Rightarrow> (Finished resp, s))"

text \<open>A schedule names, step by step, the task that runs next.\<close>

fun interleave :: "limiter \<Rightarrow> nat list \<Rightarrow> task list \<times> state \<Rightarrow> task list \<times> state" where
  "interleave L [] (ts, s) = (ts, s)"
| "interleave L (i # sched) (ts, s) =
     (if i < length ts
      then (let (t', s') = step L (ts ! i) s in interleave L sched (ts[i := t'], s'))
      else interleave L sched (ts, s))"

subsection \<open>Auxiliary definitions\<close>

text \<open>
  Redis holds nothing under a key outside \<open>K\<close>, and no stored value exceeds \<open>m\<close>.
\<close>

definition counts_bounded :: "string set \<Rightarrow> int \<Rightarrow> redis_db \<Rightarrow> bool" where
  "counts_bounded K m db = ((\<forall>k. k \<notin> K \<longrightarrow> db k = None) \<and> (\<forall>k e. db k = Some e \<longrightarrow> val e \<le> m))"

text \<open>
  The spec's concrete scenario: window 60000 ms, max 2, every request under key \<open>k1\<close>,
  local path; a request that reads the clock at \<open>t\<close>; the state before any request.
\<close>

definition k1_limiter :: limiter where
  "k1_limiter = \<lparr>windowMs = 60000, max_req = 2, keyGenerator = (\<lambda>c. ''k1''), redisClient = False\<rparr>"

definition request_at :: "int \<Rightarrow> request" where
  "request_at t = \<lparr>ctx = \<lparr>req_headers = []\<rparr>, isReady = False, fails = (\<lambda>c. False),
                  now_shared = t, now_local = t\<rparr>"

definition empty_state :: state where
  "empty_state = \<lparr>inMemoryStore = [], redis = Map.empty\<rparr>"

definition k1_shared_limiter :: limiter where
  "k1_shared_limiter = k1_limiter\<lparr>redisClient := True\<rparr>"

definition shared_request_at :: "int \<Rightarrow> request" where
  "shared_request_at t = (request_at t)\<lparr>isReady := True\<rparr>"

text \<open>A request on a ready client, every command of which fails.\<close>

definition failing_request_at :: "int \<Rightarrow> request" where
  "failing_request_at t = (shared_request_at t)\<lparr>fails := (\<lambda>c. True)\<rparr>"

text \<open>A store with an entry of \<open>k1\<close> that expires at 60000 and one of \<open>k2\<close> that expires at 70000.\<close>

definition two_keys_store :: store where
  "two_keys_store =
     [(''k1'', \<lparr>count = 2, resetTime = 60000\<rparr>), (''k2'', \<lparr>count = 1, resetTime = 70000\<rparr>)]"

text \<open>
  A limiter with the default key generator and a Redis client, and a request that
  carries an \<open>x-forwarded-for\<close> header.
\<close>

definition default_shared_limiter :: limiter where
  "default_shared_limiter =
     \<lparr>windowMs = 60000, max_req = 2, keyGenerator = default_keyGenerator, redisClient = True\<rparr>"

definition forwarded_request :: "string \<Rightarrow> int \<Rightarrow> request" where
  "forwarded_request ip t =
     \<lparr>ctx = \<lparr>req_headers = [(''x-forwarded-for'', ip)]\<rparr>, isReady = True,
      fails = (\<lambda>c. False), now_shared = t, now_local = t\<rparr>"

text \<open>A limiter whose custom key generator returns the empty string.\<close>

definition empty_key_limiter :: limiter where
  "empty_key_limiter = k1_limiter\<lparr>keyGenerator := (\<lambda>c. [])\<rparr>"


definition k1_used_redis :: state where
  "k1_used_redis =
     \<lparr>inMemoryStore = [],
      redis = [''k1'' \<mapsto> \<lparr>val = 2, expireAt = None\<rparr>,
               ''k1:reset'' \<mapsto> \<lparr>val = 60000, expireAt = None\<rparr>]\<rparr>"

text \<open>
  A limiter built by \<open>rateLimit\<close> from no options, in an environment whose
  \<open>RATE_LIMIT_MAX_REQUESTS\<close> is \<open>0\<close>.
\<close>

definition no_options :: options where
  "no_options = \<lparr>opt_windowMs = None, opt_max = None, opt_keyGenerator = None, opt_useRedis = None\<rparr>"

definition zero_env :: env where
  "zero_env = \<lparr>RATE_LIMIT_WINDOW_MS = 60000, RATE_LIMIT_MAX_REQUESTS = 0, REDIS_URL = None\<rparr>"

text \<open>The same with \<open>useRedis\<close> set and a Redis URL in the environment.\<close>

definition redis_options :: options where
  "redis_options = no_options\<lparr>opt_useRedis := Some True\<rparr>"

definition zero_redis_env :: env where
  "zero_redis_env = zero_env\<lparr>REDIS_URL := Some ''redis://localhost:6379''\<rparr>"

text \<open>
  What the request that brings the count of a live window to \<open>i\<close> gets (lines 168-181):
  \<open>m\<close> is the limit and \<open>R\<close> the window's reset time.
\<close>

definition window_resp :: "int \<Rightarrow> int \<Rightarrow> int \<Rightarrow> response" where
  "window_resp m R i = (if i > m then CallHandler else CallNext (set_headers m (max 0 (m - i)) R))"


section \<open>Lemmas on the local path\<close>

lemma set_cleanup: "set (cleanup now st) = {(k, d). (k, d) \<in> set st \<and> \<not> now > resetTime d}"
  by (induction st) (auto split: if_splits)

lemma map_of_cleanup_live:
  "map_of st k = Some d \<Longrightarrow> \<not> now > resetTime d \<Longrightarrow> map_of (cleanup now st) k = Some d"
  by (induction st) (auto split: if_splits)

lemma map_of_cleanup_dead:
  "\<forall>d. (k, d) \<in> set st \<longrightarrow> now > resetTime d \<Longrightarrow> map_of (cleanup now st) k = None"
  by (induction st) auto

lemma inMemoryRateLimit_fresh:
  "map_of (cleanup now st) k = None \<Longrightarrow>
   inMemoryRateLimit k w m now st =
     (CallNext (set_headers m (m - 1) (now + w)),
      AList.update k \<lparr>count = 1, resetTime = now + w\<rparr> (cleanup now st))"
  by (simp add: inMemoryRateLimit_def)

lemma inMemoryRateLimit_live:
  "map_of st k = Some d \<Longrightarrow> now \<le> resetTime d \<Longrightarrow>
   inMemoryRateLimit k w m now st =
     (if count d + 1 > m then CallHandler
      else CallNext (set_headers m (max 0 (m - (count d + 1))) (resetTime d)),
      AList.update k (d\<lparr>count := count d + 1\<rparr>) (cleanup now st))"
  using map_of_cleanup_live[of st k d now]
  by (simp add: inMemoryRateLimit_def Let_def)

lemma middleware_local:
  "\<not> (redisClient L \<and> isReady r) \<Longrightarrow> middleware L r s = local_path L r s"
  by (auto simp: middleware_def)

lemma run_live:
  "map_of (inMemoryStore s) k = Some d \<Longrightarrow>
   \<forall>r \<in> set rs. keyGenerator L (ctx r) = k \<and> \<not> (redisClient L \<and> isReady r)
                    \<and> now_local r \<le> resetTime d \<Longrightarrow>
   fst (run L rs s) =
     map (window_resp (max_req L) (resetTime d)) [count d + 1 .. count d + int (length rs)]"
proof (induction rs arbitrary: s d)
  case Nil
  then show ?case by simp
next
  case (Cons r rs)
  let ?d' = "d\<lparr>count := count d + 1\<rparr>"
  obtain resp s1 where step: "middleware L r s = (resp, s1)" by (cases "middleware L r s")
  have loc: "middleware L r s = local_path L r s"
    using Cons.prems(2) by (simp add: middleware_local)
  have live: "inMemoryRateLimit k (windowMs L) (max_req L) (now_local r) (inMemoryStore s) =
     (window_resp (max_req L) (resetTime d) (count d + 1),
      AList.update k ?d' (cleanup (now_local r) (inMemoryStore s)))"
    using inMemoryRateLimit_live[OF Cons.prems(1), of "now_local r"] Cons.prems(2)
    by (simp add: window_resp_def)
  have resp: "resp = window_resp (max_req L) (resetTime d) (count d + 1)"
    and s1: "map_of (inMemoryStore s1) k = Some ?d'"
    using step loc live Cons.prems(2) by (auto simp: local_path_def update_conv')
  have ih: "fst (run L rs s1) =
     map (window_resp (max_req L) (resetTime d)) [count d + 2 .. count d + 1 + int (length rs)]"
    using Cons.IH[OF s1] Cons.prems(2) by (simp add: add.assoc)
  have upto: "[count d + 1 .. count d + int (length (r # rs))] =
     (count d + 1) # [count d + 2 .. count d + 1 + int (length rs)]"
    by (simp add: upto_rec1 add.assoc)
  have "fst (run L (r # rs) s) = resp # fst (run L rs s1)"
    using step by (simp split: prod.splits)
  then show ?case
    unfolding upto using ih resp by simp
qed

lemma first_request:
  assumes loc: "keyGenerator L (ctx r) = k" "\<not> (redisClient L \<and> isReady r)"
    and fresh: "\<forall>d. (k, d) \<in> set (inMemoryStore s) \<longrightarrow> resetTime d < now_local r"
  shows "fst (middleware L r s) =
           CallNext (set_headers (max_req L) (max_req L - 1) (now_local r + windowMs L))"
    and "map_of (inMemoryStore (snd (middleware L r s))) k =
           Some \<lparr>count = 1, resetTime = now_local r + windowMs L\<rparr>"
proof -
  have "map_of (cleanup (now_local r) (inMemoryStore s)) k = None"
    using fresh by (intro map_of_cleanup_dead) simp
  then have "inMemoryRateLimit k (windowMs L) (max_req L) (now_local r) (inMemoryStore s) =
     (CallNext (set_headers (max_req L) (max_req L - 1) (now_local r + windowMs L)),
      AList.update k \<lparr>count = 1, resetTime = now_local r + windowMs L\<rparr>
        (cleanup (now_local r) (inMemoryStore s)))"
    by (rule inMemoryRateLimit_fresh)
  then have m: "middleware L r s =
     (CallNext (set_headers (max_req L) (max_req L - 1) (now_local r + windowMs L)),
      s\<lparr>inMemoryStore := AList.update k \<lparr>count = 1, resetTime = now_local r + windowMs L\<rparr>
        (cleanup (now_local r) (inMemoryStore s))\<rparr>)"
    using loc by (simp add: middleware_local local_path_def)
  show "fst (middleware L r s) =
           CallNext (set_headers (max_req L) (max_req L - 1) (now_local r + windowMs L))"
    by (simp add: m)
  show "map_of (inMemoryStore (snd (middleware L r s))) k =
           Some \<lparr>count = 1, resetTime = now_local r + windowMs L\<rparr>"
    by (simp add: m update_conv')
qed

lemma run_window:
  assumes loc: "\<forall>r \<in> set (r1 # rs). keyGenerator L (ctx r) = k \<and> \<not> (redisClient L \<and> isReady r)"
    and fresh: "\<forall>d. (k, d) \<in> set (inMemoryStore s) \<longrightarrow> resetTime d < now_local r1"
    and window: "\<forall>r \<in> set rs. now_local r \<le> now_local r1 + windowMs L"
  shows "fst (run L (r1 # rs) s) =
           CallNext (set_headers (max_req L) (max_req L - 1) (now_local r1 + windowMs L)) #
           map (window_resp (max_req L) (now_local r1 + windowMs L)) [2 .. 1 + int (length rs)]"
proof -
  let ?d = "\<lparr>count = 1, resetTime = now_local r1 + windowMs L\<rparr>"
  obtain resp s1 where step: "middleware L r1 s = (resp, s1)" by (cases "middleware L r1 s")
  have resp: "resp = CallNext (set_headers (max_req L) (max_req L - 1) (now_local r1 + windowMs L))"
    and s1: "map_of (inMemoryStore s1) k = Some ?d"
    using first_request[of L r1 k s] loc fresh step by simp_all
  have "fst (run L rs s1) =
     map (window_resp (max_req L) (resetTime ?d)) [count ?d + 1 .. count ?d + int (length rs)]"
    using loc window by (intro run_live[OF s1]) simp
  then have "fst (run L rs s1) =
     map (window_resp (max_req L) (now_local r1 + windowMs L)) [2 .. 1 + int (length rs)]"
    by simp
  moreover have "fst (run L (r1 # rs) s) = resp # fst (run L rs s1)"
    using step by (simp split: prod.splits)
  ultimately show ?thesis using resp by simp
qed




lemma set_headers_list:
  "set_headers limit remaining reset =
     [(''X-RateLimit-Limit'', limit), (''X-RateLimit-Remaining'', remaining),
      (''X-RateLimit-Reset'', reset)]"
  by (simp add: set_headers_def header_def)

lemma inMemoryRateLimit_admitted:
  assumes "inMemoryRateLimit k w m now st = (CallNext hs, st')"
  shows "\<exists>d. map_of st' k = Some d \<and> hs = set_headers m (m - count d) (resetTime d)
             \<and> (1 \<le> m \<longrightarrow> count d \<le> m)"
  using assms
  by (auto simp: inMemoryRateLimit_def Let_def update_conv' max_def
      split: option.splits if_splits)

lemma local_path_admitted:
  assumes "local_path L r s = (CallNext hs, s')"
  shows "\<exists>d. map_of (inMemoryStore s') (keyGenerator L (ctx r)) = Some d
             \<and> hs = set_headers (max_req L) (max_req L - count d) (resetTime d)
             \<and> (1 \<le> max_req L \<longrightarrow> count d \<le> max_req L)"
proof -
  obtain resp st' where i: "inMemoryRateLimit (keyGenerator L (ctx r)) (windowMs L) (max_req L)
      (now_local r) (inMemoryStore s) = (resp, st')"
    by (cases "inMemoryRateLimit (keyGenerator L (ctx r)) (windowMs L) (max_req L)
      (now_local r) (inMemoryStore s)")
  with assms have "resp = CallNext hs" "inMemoryStore s' = st'"
    by (auto simp: local_path_def)
  with i show ?thesis using inMemoryRateLimit_admitted by blast
qed


lemma cleanup_absent: "map_of st k = None \<Longrightarrow> map_of (cleanup now st) k = None"
  by (induction st) (auto split: if_splits)

lemma inMemoryRateLimit_keys:
  "map_of (snd (inMemoryRateLimit k w m now st)) k \<noteq> None"
  "k' \<noteq> k \<Longrightarrow> map_of st k' = None \<Longrightarrow> map_of (snd (inMemoryRateLimit k w m now st)) k' = None"
  by (auto simp: inMemoryRateLimit_def Let_def update_conv' cleanup_absent split: option.splits)

lemma default_keyGenerator_unknown:
  "req_header c ''x-forwarded-for'' = None \<or> req_header c ''x-forwarded-for'' = Some [] \<Longrightarrow>
   default_keyGenerator c = ''rate-limit:unknown''"
  by (auto simp: default_keyGenerator_def)


lemma set_update_subset:
  "set (AList.update k v al) \<subseteq> insert (k, v) (set al)"
  by (induction al) auto

lemma inMemoryRateLimit_no_expired:
  assumes w: "0 \<le> w" and e: "(k', d) \<in> set (snd (inMemoryRateLimit k w m now st))"
  shows "now \<le> resetTime d"
proof -
  have c: "now \<le> resetTime d'" if "(k'', d') \<in> set (cleanup now st)" for k'' d'
    using that by (simp add: set_cleanup)
  have u: "now \<le> resetTime d" if "(k', d) \<in> set (AList.update k v (cleanup now st))"
    "now \<le> resetTime v" for v
    using that set_update_subset[of k v "cleanup now st"] c by auto
  show ?thesis
  proof (cases "map_of (cleanup now st) k")
    case None
    then show ?thesis using e w u[of "\<lparr>count = 1, resetTime = now + w\<rparr>"]
      by (simp add: inMemoryRateLimit_def)
  next
    case (Some data)
    then have "(k, data) \<in> set (cleanup now st)" by (rule map_of_SomeD)
    then have live: "now \<le> resetTime data" using c by blast
    then show ?thesis
      using e Some u[of "data\<lparr>count := count data + 1\<rparr>"]
      by (simp add: inMemoryRateLimit_def Let_def split: if_splits)
  qed
qed


lemma set_update_other:
  "k' \<noteq> k \<Longrightarrow> (k', d) \<in> set (AList.update k v al) \<longleftrightarrow> (k', d) \<in> set al"
  by (induction al) auto

lemma inMemoryRateLimit_store:
  "\<exists>v. snd (inMemoryRateLimit k w m now st) = AList.update k v (cleanup now st)"
proof (cases "map_of (cleanup now st) k")
  case None
  then show ?thesis
    by (intro exI[of _ "\<lparr>count = 1, resetTime = now + w\<rparr>"]) (simp add: inMemoryRateLimit_fresh)
next
  case (Some data)
  show ?thesis
  proof (cases "now > resetTime data")
    case True
    then show ?thesis using Some
      by (intro exI[of _ "\<lparr>count = 1, resetTime = now + w\<rparr>"]) (simp add: inMemoryRateLimit_def)
  next
    case False
    then show ?thesis using Some
      by (intro exI[of _ "data\<lparr>count := count data + 1\<rparr>"]) (simp add: inMemoryRateLimit_def Let_def)
  qed
qed

lemma inMemoryRateLimit_other_keys:
  assumes "k' \<noteq> k"
  shows "(k', d) \<in> set (snd (inMemoryRateLimit k w m now st)) \<longleftrightarrow>
   (k', d) \<in> set st \<and> \<not> now > resetTime d"
proof -
  obtain v where "snd (inMemoryRateLimit k w m now st) = AList.update k v (cleanup now st)"
    using inMemoryRateLimit_store by blast
  then have "(k', d) \<in> set (snd (inMemoryRateLimit k w m now st)) \<longleftrightarrow>
      (k', d) \<in> set (cleanup now st)"
    using assms by (simp add: set_update_other)
  also have "\<dots> \<longleftrightarrow> (k', d) \<in> set st \<and> \<not> now > resetTime d"
    by (simp add: set_cleanup)
  finally show ?thesis .
qed


section \<open>Lemmas on the Redis path\<close>

lemma middleware_shared:
  assumes "redisClient L" "isReady r" "\<forall>c. \<not> fails r c"
  shows "middleware L r s =
    (case redis_decide L r
            (redis_get (redis s) (now_shared r) (keyGenerator L (ctx r)),
             redis_get (redis s) (now_shared r) (keyGenerator L (ctx r) @ '':reset''))
            (redis s) of
       (None, db') \<Rightarrow> local_path L r (s\<lparr>redis := db'\<rparr>)
     | (Some resp, db') \<Rightarrow> (resp, s\<lparr>redis := db'\<rparr>))"
  using assms by (simp add: middleware_def shared_path_def redis_read_def Let_def)

lemma shared_increment:
  assumes "redisClient L" "isReady r" "\<forall>c. \<not> fails r c"
    and "keyGenerator L (ctx r) = k"
    and "redis_get (redis s) (now_shared r) (k @ '':reset'') = stored"
    and "\<not> now_shared r > (case stored of Some t \<Rightarrow> t | None \<Rightarrow> now_shared r + windowMs L)"
    and "newCount = (case redis_get (redis s) (now_shared r) k of Some c \<Rightarrow> c + 1 | None \<Rightarrow> 1)"
  shows "middleware L r s =
    (if newCount > max_req L then (CallHandler, s)
     else (CallNext (set_headers (max_req L) (max 0 (max_req L - newCount))
                      (case stored of Some t \<Rightarrow> t | None \<Rightarrow> now_shared r + windowMs L)),
           s\<lparr>redis := redis_set (redis s) k newCount\<rparr>))"
  using assms by (simp add: middleware_shared redis_decide_def Let_def)


lemma length_run: "length (fst (run L rs s)) = length rs"
  by (induction rs arbitrary: s) (simp_all add: case_prod_beta)

lemma run_Cons:
  "fst (run L (r # rs) s) = fst (middleware L r s) # fst (run L rs (snd (middleware L r s)))"
  by (simp add: case_prod_beta)

lemma redis_get_absent: "db k = None \<Longrightarrow> redis_get db now k = None"
  by (simp add: redis_get_def redis_live_def)

lemma redis_get_persistent: "db k = Some \<lparr>val = c, expireAt = None\<rparr> \<Longrightarrow> redis_get db now k = Some c"
  by (simp add: redis_get_def redis_live_def)

lemma shared_no_window:
  assumes sh: "redisClient L" "isReady r" "\<forall>c. \<not> fails r c" "keyGenerator L (ctx r) = k"
    and w: "0 \<le> windowMs L"
    and noreset: "redis s (k @ '':reset'') = None"
    and cnt: "redis s k = None \<and> c = 0 \<or> redis s k = Some \<lparr>val = c, expireAt = None\<rparr>"
  shows "middleware L r s =
    (if c + 1 > max_req L then (CallHandler, s)
     else (CallNext (set_headers (max_req L) (max_req L - (c + 1)) (now_shared r + windowMs L)),
           s\<lparr>redis := redis_set (redis s) k (c + 1)\<rparr>))"
proof -
  have g: "redis_get (redis s) (now_shared r) (k @ '':reset'') = None"
    using noreset by (rule redis_get_absent)
  have n: "(case redis_get (redis s) (now_shared r) k of Some c \<Rightarrow> c + 1 | None \<Rightarrow> 1) = c + 1"
    using cnt by (auto simp: redis_get_absent redis_get_persistent)
  show ?thesis
    using shared_increment[OF sh g _ n[symmetric]] w by simp
qed

lemma run_shared_nth:
  assumes "\<forall>r \<in> set rs. redisClient L \<and> isReady r \<and> (\<forall>c. \<not> fails r c) \<and> keyGenerator L (ctx r) = k"
    and "0 \<le> windowMs L"
    and "redis s (k @ '':reset'') = None"
    and "redis s k = None \<and> c = 0 \<or> redis s k = Some \<lparr>val = c, expireAt = None\<rparr>"
    and "j < length rs"
  shows "fst (run L rs s) ! j =
    (if c + int j + 1 > max_req L then CallHandler
     else CallNext (set_headers (max_req L) (max_req L - (c + int j + 1))
                      (now_shared (rs ! j) + windowMs L)))"
  using assms
proof (induction rs arbitrary: s c j)
  case Nil
  then show ?case by simp
next
  case (Cons r rs)
  have step: "middleware L r s =
    (if c + 1 > max_req L then (CallHandler, s)
     else (CallNext (set_headers (max_req L) (max_req L - (c + 1)) (now_shared r + windowMs L)),
           s\<lparr>redis := redis_set (redis s) k (c + 1)\<rparr>))"
    using Cons.prems by (intro shared_no_window) simp_all
  show ?case
  proof (cases j)
    case 0
    then show ?thesis by (simp del: run.simps add: run_Cons step)
  next
    case (Suc j')
    have rest: "\<forall>r \<in> set rs. redisClient L \<and> isReady r \<and> (\<forall>c. \<not> fails r c) \<and> keyGenerator L (ctx r) = k"
      using Cons.prems(1) by simp
    have j': "j' < length rs" using Cons.prems(5) Suc by simp
    show ?thesis
    proof (cases "c + 1 > max_req L")
      case True
      then have "snd (middleware L r s) = s" by (simp add: step)
      then have "fst (run L (r # rs) s) ! j = fst (run L rs s) ! j'"
        using Suc by (simp del: run.simps add: run_Cons)
      also have "\<dots> = CallHandler"
        using Cons.IH[OF rest Cons.prems(2) Cons.prems(3) Cons.prems(4) j'] True by simp
      finally show ?thesis using True Suc by simp
    next
      case False
      let ?s1 = "s\<lparr>redis := redis_set (redis s) k (c + 1)\<rparr>"
      have s1: "snd (middleware L r s) = ?s1" using False by (simp add: step)
      have a: "redis ?s1 (k @ '':reset'') = None"
        using Cons.prems(3) by (simp add: redis_set_def)
      have b: "redis ?s1 k = None \<and> c + 1 = 0 \<or> redis ?s1 k = Some \<lparr>val = c + 1, expireAt = None\<rparr>"
        by (simp add: redis_set_def)
      have "fst (run L (r # rs) s) ! j = fst (run L rs ?s1) ! j'"
        using Suc s1 by (simp del: run.simps add: run_Cons)
      then show ?thesis
        using Cons.IH[OF rest Cons.prems(2) a b j'] Suc by (simp add: add.assoc)
    qed
  qed
qed


lemma run_shared_window:
  assumes sh: "\<forall>r \<in> set rs. redisClient L \<and> isReady r \<and> (\<forall>c. \<not> fails r c) \<and> keyGenerator L (ctx r) = k"
    and w: "0 \<le> windowMs L"
    and noreset: "redis s (k @ '':reset'') = None"
    and nocount: "redis s k = None"
  shows "fst (run L rs s) =
           map (\<lambda>(i, r). if i \<le> max_req L
                     then CallNext (set_headers (max_req L) (max_req L - i) (now_shared r + windowMs L))
                     else CallHandler)
             (zip [1 .. int (length rs)] rs)"
proof (rule nth_equalityI)
  show "length (fst (run L rs s)) = length (map (\<lambda>(i, r). if i \<le> max_req L
                     then CallNext (set_headers (max_req L) (max_req L - i) (now_shared r + windowMs L))
                     else CallHandler) (zip [1 .. int (length rs)] rs))"
    by (simp add: length_run)
next
  fix j assume "j < length (fst (run L rs s))"
  then have j: "j < length rs" by (simp add: length_run)
  have c: "redis s k = None \<and> (0::int) = 0 \<or> redis s k = Some \<lparr>val = 0, expireAt = None\<rparr>"
    using nocount by simp
  have "[1 .. int (length rs)] ! j = 1 + int j"
    using j by (simp add: nth_upto)
  then show "fst (run L rs s) ! j = map (\<lambda>(i, r). if i \<le> max_req L
                     then CallNext (set_headers (max_req L) (max_req L - i) (now_shared r + windowMs L))
                     else CallHandler) (zip [1 .. int (length rs)] rs) ! j"
    using run_shared_nth[OF sh w noreset c j] j by (auto simp: add.commute)
qed





lemma middleware_all_fail:
  "\<forall>c. fails r c \<Longrightarrow> middleware L r s = local_path L r s"
  by (simp add: middleware_def shared_path_def redis_read_def)

lemma local_path_redisClient:
  "local_path (L\<lparr>redisClient := b\<rparr>) r s = local_path L r s"
  by (simp add: local_path_def)

lemma run_all_fail:
  "\<forall>r \<in> set rs. \<forall>c. fails r c \<Longrightarrow> run L rs s = run (L\<lparr>redisClient := False\<rparr>) rs s"
proof (induction rs arbitrary: s)
  case Nil
  then show ?case by simp
next
  case (Cons r rs)
  have "middleware L r s = middleware (L\<lparr>redisClient := False\<rparr>) r s"
    using Cons.prems by (simp add: middleware_all_fail middleware_local local_path_redisClient)
  then show ?case using Cons by simp
qed

lemma redis_decide_no_fail:
  "\<forall>c. \<not> fails r c \<Longrightarrow> \<exists>resp db'. redis_decide L r rd db = (Some resp, db')"
  by (simp add: redis_decide_def Let_def)

lemma local_path_redis: "redis (snd (local_path L r s)) = redis s"
  by (simp add: local_path_def case_prod_beta)


lemma redis_decide_admitted:
  assumes "redis_decide L r rd db = (Some (CallNext hs), db')"
  shows "\<exists>remaining reset. hs = set_headers (max_req L) remaining reset
             \<and> (1 \<le> max_req L \<longrightarrow> 0 \<le> remaining)"
  using assms
  by (auto simp: redis_decide_def Let_def split: if_splits)

lemma middleware_admitted:
  assumes "middleware L r s = (CallNext hs, s')"
  shows "\<exists>remaining reset. hs = set_headers (max_req L) remaining reset
             \<and> (1 \<le> max_req L \<longrightarrow> 0 \<le> remaining)"
proof -
  have loc: "\<exists>remaining reset. hs = set_headers (max_req L) remaining reset
             \<and> (1 \<le> max_req L \<longrightarrow> 0 \<le> remaining)"
    if "local_path L r s0 = (CallNext hs, s')" for s0
    using local_path_admitted[OF that] by fastforce
  show ?thesis
  proof (cases "redisClient L \<and> isReady r")
    case False
    then show ?thesis using assms loc by (simp add: middleware_local)
  next
    case True
    then have sp: "shared_path L r s = (CallNext hs, s')"
      using assms by (simp add: middleware_def)
    show ?thesis
    proof (cases "redis_read L r (redis s)")
      case None
      then show ?thesis using sp loc by (simp add: shared_path_def)
    next
      case (Some rd)
      obtain o' db' where d: "redis_decide L r rd (redis s) = (o', db')"
        by (cases "redis_decide L r rd (redis s)")
      show ?thesis
      proof (cases o')
        case None
        then show ?thesis using sp Some d loc by (simp add: shared_path_def)
      next
        case (Some resp)
        then have "resp = CallNext hs"
          using sp \<open>redis_read L r (redis s) = Some rd\<close> d by (simp add: shared_path_def)
        then show ?thesis using d Some redis_decide_admitted by blast
      qed
    qed
  qed
qed


lemma redis_set_other: "k' \<noteq> k \<Longrightarrow> redis_set db k v k' = db k'"
  by (simp add: redis_set_def)

lemma redis_expire_other: "k' \<noteq> k \<Longrightarrow> redis_expire db now k seconds k' = db k'"
  by (simp add: redis_expire_def split: option.splits)

lemma redis_decide_frame:
  "k' \<noteq> keyGenerator L (ctx r) \<Longrightarrow> k' \<noteq> keyGenerator L (ctx r) @ '':reset'' \<Longrightarrow>
   snd (redis_decide L r rd db) k' = db k'"
  by (simp add: redis_decide_def Let_def redis_set_other redis_expire_other)

lemma shared_path_redis_frame:
  assumes "k' \<noteq> keyGenerator L (ctx r)" "k' \<noteq> keyGenerator L (ctx r) @ '':reset''"
  shows "redis (snd (shared_path L r s)) k' = redis s k'"
proof (cases "redis_read L r (redis s)")
  case None
  then show ?thesis by (simp add: shared_path_def local_path_redis)
next
  case (Some rd)
  obtain o' db' where d: "redis_decide L r rd (redis s) = (o', db')"
    by (cases "redis_decide L r rd (redis s)")
  then have "db' k' = redis s k'"
    using redis_decide_frame[OF assms, of rd "redis s"] by simp
  then show ?thesis
    using Some d by (cases o') (simp_all add: shared_path_def local_path_redis)
qed

lemma middleware_redis_frame:
  assumes "k' \<noteq> keyGenerator L (ctx r)" "k' \<noteq> keyGenerator L (ctx r) @ '':reset''"
  shows "redis (snd (middleware L r s)) k' = redis s k'"
  using shared_path_redis_frame[OF assms] by (simp add: middleware_def local_path_redis)


text \<open>Two steps of one task, nothing in between, are the middleware.\<close>

lemma step_twice_is_middleware:
  "(let (t1, s1) = step L (Pending r) s; (t2, s2) = step L t1 s1 in (t2, s2)) =
     (Finished (fst (middleware L r s)), snd (middleware L r s))"
  by (auto simp: step_def middleware_def shared_path_def Let_def case_prod_beta
      split: option.splits prod.splits)

lemma interleave_sequential:
  "interleave L [0, 0] ([Pending r], s) =
     ([Finished (fst (middleware L r s))], snd (middleware L r s))"
  using step_twice_is_middleware[of L r s]
  by (auto simp: Let_def case_prod_beta split: prod.splits)

lemma step_local_atomic:
  "\<not> (redisClient L \<and> isReady r) \<Longrightarrow>
   step L (Pending r) s = (Finished (fst (middleware L r s)), snd (middleware L r s))"
  by (auto simp: step_def middleware_def case_prod_beta)

lemma ceil_seconds_nonpos: "w < 0 \<Longrightarrow> ceil_seconds w \<le> 0"
  unfolding ceil_seconds_def by (simp add: pos_imp_zdiv_nonneg_iff)

lemma shared_rejected_unchanged:
  assumes "redisClient L" "isReady r" "\<forall>c. \<not> fails r c"
    and "fst (middleware L r s) = CallHandler"
  shows "snd (middleware L r s) = s"
  using assms
  by (auto simp: middleware_shared redis_decide_def Let_def split: if_splits)

lemma shared_redis_after:
  assumes sh: "redisClient L" "isReady r" "\<forall>c. \<not> fails r c" "keyGenerator L (ctx r) = k"
    and noreset: "redis s (k @ '':reset'') = None"
  shows "redis (snd (middleware L r s)) =
    (if windowMs L < 0 then (redis s)(k := None, k @ '':reset'' := None)
     else if (case redis_get (redis s) (now_shared r) k of Some c \<Rightarrow> c + 1 | None \<Rightarrow> 1) > max_req L
       then redis s
       else (redis s)(k \<mapsto> \<lparr>val = (case redis_get (redis s) (now_shared r) k of Some c \<Rightarrow> c + 1 | None \<Rightarrow> 1),
                               expireAt = None\<rparr>))"
proof (cases "windowMs L < 0")
  case True
  then have c: "ceil_seconds (windowMs L) \<le> 0" by (rule ceil_seconds_nonpos)
  have g: "redis_get (redis s) (now_shared r) (k @ '':reset'') = None"
    using noreset by (rule redis_get_absent)
  show ?thesis
    using sh True c g
    by (simp add: middleware_shared redis_decide_def Let_def redis_set_def redis_expire_def
        redis_live_def fun_upd_twist)
next
  case False
  have g: "redis_get (redis s) (now_shared r) (k @ '':reset'') = None"
    using noreset by (rule redis_get_absent)
  show ?thesis
    using sh False g
    by (simp add: middleware_shared redis_decide_def Let_def redis_set_def)
qed

lemma counts_bounded_step:
  assumes sh: "redisClient L" "isReady r" "\<forall>c. \<not> fails r c"
    and k: "keyGenerator L (ctx r) \<in> K" "keyGenerator L (ctx r) @ '':reset'' \<notin> K"
    and inv: "counts_bounded K (max_req L) (redis s)"
  shows "counts_bounded K (max_req L) (redis (snd (middleware L r s)))"
proof -
  have noreset: "redis s (keyGenerator L (ctx r) @ '':reset'') = None"
    using inv k(2) by (simp add: counts_bounded_def)
  show ?thesis
    unfolding shared_redis_after[OF sh refl noreset]
    using inv k(1) by (auto simp: counts_bounded_def)
qed

lemma counts_bounded_run:
  assumes "\<forall>r \<in> set rs. redisClient L \<and> isReady r \<and> (\<forall>c. \<not> fails r c)
             \<and> keyGenerator L (ctx r) \<in> K \<and> keyGenerator L (ctx r) @ '':reset'' \<notin> K"
    and "counts_bounded K (max_req L) (redis s)"
  shows "counts_bounded K (max_req L) (redis (snd (run L rs s)))"
  using assms
proof (induction rs arbitrary: s)
  case Nil
  then show ?case by simp
next
  case (Cons r rs)
  have "counts_bounded K (max_req L) (redis (snd (middleware L r s)))"
    using Cons.prems by (intro counts_bounded_step) simp_all
  then have "counts_bounded K (max_req L) (redis (snd (run L rs (snd (middleware L r s)))))"
    using Cons.prems(1) by (intro Cons.IH) simp_all
  then show ?case by (simp add: case_prod_beta)
qed

lemma counts_bounded_get:
  "counts_bounded K m db \<Longrightarrow> redis_get db t k = Some v \<Longrightarrow> v \<le> m"
  by (auto simp: counts_bounded_def redis_get_def redis_live_def split: option.splits if_splits)


section \<open>What an admitted request reports\<close>

text \<open>
  One window on the local path, opened by \<open>r1\<close>: with \<open>1 \<le> max\<close> the request that brings
  the count to \<open>i\<close> is admitted exactly when \<open>i \<le> max\<close>, and it reports \<open>max - i\<close>.
\<close>

lemma local_window_admissions:
  assumes pos: "1 \<le> max_req L"
    and loc: "\<forall>r \<in> set (r1 # rs). keyGenerator L (ctx r) = k \<and> \<not> (redisClient L \<and> isReady r)"
    and fresh: "\<forall>d. (k, d) \<in> set (inMemoryStore s) \<longrightarrow> resetTime d < now_local r1"
    and window: "\<forall>r \<in> set rs. now_local r \<le> now_local r1 + windowMs L"
  shows "fst (run L (r1 # rs) s) =
           map (\<lambda>i. if i \<le> max_req L
                     then CallNext [(''X-RateLimit-Limit'', max_req L),
                                    (''X-RateLimit-Remaining'', max_req L - i),
                                    (''X-RateLimit-Reset'', now_local r1 + windowMs L)]
                     else CallHandler)
             [1 .. int (length (r1 # rs))]"
proof -
  have "map (window_resp (max_req L) (now_local r1 + windowMs L)) [2 .. 1 + int (length rs)] =
        map (\<lambda>i. if i \<le> max_req L
                     then CallNext [(''X-RateLimit-Limit'', max_req L),
                                    (''X-RateLimit-Remaining'', max_req L - i),
                                    (''X-RateLimit-Reset'', now_local r1 + windowMs L)]
                     else CallHandler)
          [2 .. 1 + int (length rs)]"
    by (intro map_cong) (auto simp: window_resp_def set_headers_list)
  moreover have "[1 .. int (length (r1 # rs))] = 1 # [2 .. 1 + int (length rs)]"
    by (simp add: upto_rec1)
  ultimately show ?thesis
    using run_window[OF loc fresh window] pos by (simp add: set_headers_list)
qed

text \<open>Every admitted request carries the three headers; the limit is \<open>max\<close>.\<close>

lemma admitted_headers:
  assumes "middleware L r s = (CallNext hs, s')"
  shows "\<exists>remaining reset.
           hs = [(''X-RateLimit-Limit'', max_req L), (''X-RateLimit-Remaining'', remaining),
                 (''X-RateLimit-Reset'', reset)]
           \<and> (1 \<le> max_req L \<longrightarrow> 0 \<le> remaining)"
  using middleware_admitted[OF assms] by (auto simp: set_headers_list)

text \<open>
  A request admitted by \<open>inMemoryRateLimit\<close>, called directly or from the \<open>catch\<close>,
  reports the count and the reset time of the entry it leaves in the store.
\<close>

lemma local_admitted_headers:
  assumes "local_path L r s = (CallNext hs, s')"
  shows "\<exists>d. map_of (inMemoryStore s') (keyGenerator L (ctx r)) = Some d
             \<and> hs = [(''X-RateLimit-Limit'', max_req L),
                      (''X-RateLimit-Remaining'', max_req L - count d),
                      (''X-RateLimit-Reset'', resetTime d)]"
  using local_path_admitted[OF assms] by (auto simp: set_headers_list)


section \<open>Claims\<close>

text \<open>
  C1. Within one window the requests that bring the count to at most \<open>max\<close> are
  admitted and the request that first brings it above \<open>max\<close> is rejected: \<open>max\<close>
  admissions per window. The increment branch of the local path (line 172) and the Redis
  path (line 93) compare the new count with \<open>max\<close>. The branch of \<open>inMemoryRateLimit\<close>
  that opens a window (lines 140-152) does not: with \<open>max = 0\<close>, which \<open>rateLimit\<close> takes
  from \<open>RATE_LIMIT_MAX_REQUESTS\<close> when no option is given, the first request is admitted
  with count \<open>1\<close>, while the Redis path of a limiter built the same way rejects it and
  writes nothing.
\<close>

theorem C1_opening_request_not_checked:
  "max_req (rateLimit zero_env False no_options) = 0
   \<and> middleware (rateLimit zero_env False no_options) (request_at 0) empty_state =
       (CallNext [(''X-RateLimit-Limit'', 0), (''X-RateLimit-Remaining'', - 1),
                  (''X-RateLimit-Reset'', 60000)],
        \<lparr>inMemoryStore = [(''rate-limit:unknown'', \<lparr>count = 1, resetTime = 60000\<rparr>)],
         redis = Map.empty\<rparr>)
   \<and> max_req (rateLimit zero_redis_env True redis_options) = 0
   \<and> redisClient (rateLimit zero_redis_env True redis_options)
   \<and> middleware (rateLimit zero_redis_env True redis_options) (shared_request_at 0) empty_state =
       (CallHandler, empty_state)"
  by (simp add: rateLimit_def zero_env_def zero_redis_env_def no_options_def redis_options_def
      or_number_def default_keyGenerator_def req_header_def shared_request_at_def request_at_def
      empty_state_def middleware_def shared_path_def local_path_def inMemoryRateLimit_def
      redis_read_def redis_decide_def redis_get_def redis_live_def set_headers_def header_def
      Let_def)

text \<open>
  C2. After the reset instant has passed, the next request for the key opens a fresh
  window and is admitted with \<open>max - 1\<close> remaining. The local path does so. The Redis
  path does not: the request that finds no reset time stored writes the count only
  (line 98), never the reset time, so no later request sees an expired window. In the
  spec's scenario the request at 61000 ms is rejected on the Redis path, and admitted
  with reset time 121000 on the local path.
\<close>

theorem C2_shared_window_never_resets:
  "fst (run k1_shared_limiter
          [shared_request_at 0, shared_request_at 10, shared_request_at 20, shared_request_at 61000]
          empty_state) =
     [CallNext (set_headers 2 1 60000), CallNext (set_headers 2 0 60010), CallHandler, CallHandler]
   \<and> fst (run k1_limiter [request_at 0, request_at 10, request_at 20, request_at 61000] empty_state) =
     [CallNext (set_headers 2 1 60000), CallNext (set_headers 2 0 60000), CallHandler,
      CallNext (set_headers 2 1 121000)]"
  by (simp add: k1_shared_limiter_def k1_limiter_def shared_request_at_def request_at_def
      empty_state_def middleware_def shared_path_def local_path_def inMemoryRateLimit_def
      redis_read_def redis_decide_def redis_get_def redis_live_def redis_set_def Let_def)


text \<open>
  C3. Under concurrent requests for one key the claim asks for exactly \<open>max\<close>
  admissions, with no increment lost. The local path decides in one uninterrupted
  piece. The Redis path reads the count, awaits, and writes \<open>count + 1\<close> back with a
  plain \<open>SET\<close>: three requests for \<open>k1\<close> that all read before any of them writes are
  all admitted with \<open>max = 2\<close>, and the stored count ends at \<open>1\<close>. One after the other,
  the same requests give two admissions and one rejection.
\<close>

theorem C3_lost_update:
  "interleave k1_shared_limiter [0, 1, 2, 0, 1, 2]
     ([Pending (shared_request_at 0), Pending (shared_request_at 0), Pending (shared_request_at 0)],
      empty_state) =
     ([Finished (CallNext (set_headers 2 1 60000)), Finished (CallNext (set_headers 2 1 60000)),
       Finished (CallNext (set_headers 2 1 60000))],
      \<lparr>inMemoryStore = [], redis = [''k1'' \<mapsto> \<lparr>val = 1, expireAt = None\<rparr>]\<rparr>)
   \<and> fst (run k1_shared_limiter
            [shared_request_at 0, shared_request_at 0, shared_request_at 0] empty_state) =
     [CallNext (set_headers 2 1 60000), CallNext (set_headers 2 0 60000), CallHandler]"
  by (simp add: k1_shared_limiter_def k1_limiter_def shared_request_at_def request_at_def
      empty_state_def step_def middleware_def shared_path_def
      redis_read_def redis_decide_def redis_get_def redis_live_def redis_set_def Let_def)






text \<open>
  C5. A sequence of \<open>N \<le> max\<close> requests for one key within one window: every request
  is admitted, and \<open>X-RateLimit-Remaining\<close> takes the values \<open>max - 1, ..., max - N\<close> in
  order. With \<open>max = 2\<close> and two requests in the first window (0 and 10 ms) both paths
  report 1 and 0. The two requests of the next window (61000 and 61010 ms) are admitted
  with 1 and 0 on the local path and both rejected on the Redis path, which never
  stores the reset time and so never opens a second window.
\<close>

theorem C5_later_window_rejected_on_redis:
  "fst (run k1_shared_limiter
          [shared_request_at 0, shared_request_at 10, shared_request_at 61000,
           shared_request_at 61010] empty_state) =
     [CallNext [(''X-RateLimit-Limit'', 2), (''X-RateLimit-Remaining'', 1),
                (''X-RateLimit-Reset'', 60000)],
      CallNext [(''X-RateLimit-Limit'', 2), (''X-RateLimit-Remaining'', 0),
                (''X-RateLimit-Reset'', 60010)],
      CallHandler, CallHandler]
   \<and> fst (run k1_limiter
          [request_at 0, request_at 10, request_at 61000, request_at 61010] empty_state) =
     [CallNext [(''X-RateLimit-Limit'', 2), (''X-RateLimit-Remaining'', 1),
                (''X-RateLimit-Reset'', 60000)],
      CallNext [(''X-RateLimit-Limit'', 2), (''X-RateLimit-Remaining'', 0),
                (''X-RateLimit-Reset'', 60000)],
      CallNext [(''X-RateLimit-Limit'', 2), (''X-RateLimit-Remaining'', 1),
                (''X-RateLimit-Reset'', 121000)],
      CallNext [(''X-RateLimit-Limit'', 2), (''X-RateLimit-Remaining'', 0),
                (''X-RateLimit-Reset'', 121000)]]"
  by (simp add: k1_shared_limiter_def k1_limiter_def shared_request_at_def request_at_def
      empty_state_def middleware_def shared_path_def local_path_def inMemoryRateLimit_def
      redis_read_def redis_decide_def redis_get_def redis_live_def redis_set_def
      set_headers_def header_def Let_def)

text \<open>
  C6. When every Redis command of every request fails, a limiter with a Redis client
  gives the same responses (decision, remaining, reset time) and the same final state
  as the same limiter without a client, over any sequence of requests. The fallback
  leaves nothing behind: after a request \<open>r1\<close> that fell back (Redis untouched), a
  request \<open>r2\<close> whose commands succeed is decided by the Redis path again, from the
  values read from Redis, and changes the Redis store only.
\<close>

theorem C6_fallback_equals_local:
  "((\<forall>r \<in> set rs. \<forall>c. fails r c) \<longrightarrow> run L rs s = run (L\<lparr>redisClient := False\<rparr>) rs s)
   \<and>
   ((\<forall>c. fails r1 c) \<and> redisClient L \<and> isReady r2 \<and> (\<forall>c. \<not> fails r2 c)
    \<longrightarrow> redis (snd (middleware L r1 s)) = redis s
        \<and> (\<exists>resp db'.
              redis_decide L r2
                (redis_get (redis s) (now_shared r2) (keyGenerator L (ctx r2)),
                 redis_get (redis s) (now_shared r2) (keyGenerator L (ctx r2) @ '':reset''))
                (redis s) = (Some resp, db')
              \<and> middleware L r2 (snd (middleware L r1 s)) =
                  (resp, (snd (middleware L r1 s))\<lparr>redis := db'\<rparr>)))"
proof (intro conjI impI)
  assume "\<forall>r \<in> set rs. \<forall>c. fails r c"
  then show "run L rs s = run (L\<lparr>redisClient := False\<rparr>) rs s" by (rule run_all_fail)
next
  assume a: "(\<forall>c. fails r1 c) \<and> redisClient L \<and> isReady r2 \<and> (\<forall>c. \<not> fails r2 c)"
  then show r: "redis (snd (middleware L r1 s)) = redis s"
    by (simp add: middleware_all_fail local_path_redis)
  obtain resp db' where d: "redis_decide L r2
                (redis_get (redis s) (now_shared r2) (keyGenerator L (ctx r2)),
                 redis_get (redis s) (now_shared r2) (keyGenerator L (ctx r2) @ '':reset''))
                (redis s) = (Some resp, db')"
    using a redis_decide_no_fail[of r2] by blast
  have "middleware L r2 (snd (middleware L r1 s)) = (resp, (snd (middleware L r1 s))\<lparr>redis := db'\<rparr>)"
    using a d by (simp add: middleware_shared r)
  with d show "\<exists>resp db'.
              redis_decide L r2
                (redis_get (redis s) (now_shared r2) (keyGenerator L (ctx r2)),
                 redis_get (redis s) (now_shared r2) (keyGenerator L (ctx r2) @ '':reset''))
                (redis s) = (Some resp, db')
              \<and> middleware L r2 (snd (middleware L r1 s)) =
                  (resp, (snd (middleware L r1 s))\<lparr>redis := db'\<rparr>)"
    by blast
qed


theorem C6_witness:
  "fst (run k1_shared_limiter
          [failing_request_at 0, failing_request_at 10, failing_request_at 20] empty_state) =
     [CallNext (set_headers 2 1 60000), CallNext (set_headers 2 0 60000), CallHandler]
   \<and> middleware k1_shared_limiter (shared_request_at 10)
        (snd (middleware k1_shared_limiter (failing_request_at 0) empty_state)) =
       (CallNext (set_headers 2 1 60010),
        \<lparr>inMemoryStore = [(''k1'', \<lparr>count = 1, resetTime = 60000\<rparr>)],
         redis = [''k1'' \<mapsto> \<lparr>val = 1, expireAt = None\<rparr>]\<rparr>)"
proof -
  have h1: "\<forall>r \<in> set [failing_request_at 0, failing_request_at 10, failing_request_at 20].
      \<forall>c. fails r c"
    by (simp add: failing_request_at_def)
  have h2: "(\<forall>c. fails (failing_request_at 0) c) \<and> redisClient k1_shared_limiter
      \<and> isReady (shared_request_at 10) \<and> (\<forall>c. \<not> fails (shared_request_at 10) c)"
    by (simp add: failing_request_at_def shared_request_at_def request_at_def
        k1_shared_limiter_def)
  note C6 = C6_fallback_equals_local[of _ k1_shared_limiter empty_state
      "failing_request_at 0" "shared_request_at 10"]
  have "run k1_shared_limiter
          [failing_request_at 0, failing_request_at 10, failing_request_at 20] empty_state =
        run (k1_shared_limiter\<lparr>redisClient := False\<rparr>)
          [failing_request_at 0, failing_request_at 10, failing_request_at 20] empty_state"
    using C6[of "[failing_request_at 0, failing_request_at 10, failing_request_at 20]"] h1
    by blast
  moreover have "fst (run (k1_shared_limiter\<lparr>redisClient := False\<rparr>)
          [failing_request_at 0, failing_request_at 10, failing_request_at 20] empty_state) =
     [CallNext (set_headers 2 1 60000), CallNext (set_headers 2 0 60000), CallHandler]"
    by (simp add: k1_shared_limiter_def k1_limiter_def failing_request_at_def
        shared_request_at_def request_at_def empty_state_def middleware_def local_path_def
        inMemoryRateLimit_def)
  moreover obtain resp db' where
    d: "redis_decide k1_shared_limiter (shared_request_at 10)
          (redis_get (redis empty_state) (now_shared (shared_request_at 10))
             (keyGenerator k1_shared_limiter (ctx (shared_request_at 10))),
           redis_get (redis empty_state) (now_shared (shared_request_at 10))
             (keyGenerator k1_shared_limiter (ctx (shared_request_at 10)) @ '':reset''))
          (redis empty_state) = (Some resp, db')"
    and m: "middleware k1_shared_limiter (shared_request_at 10)
          (snd (middleware k1_shared_limiter (failing_request_at 0) empty_state)) =
        (resp, (snd (middleware k1_shared_limiter (failing_request_at 0) empty_state))\<lparr>redis := db'\<rparr>)"
    using C6[of "[]"] h2 by blast
  moreover have "snd (middleware k1_shared_limiter (failing_request_at 0) empty_state) =
      \<lparr>inMemoryStore = [(''k1'', \<lparr>count = 1, resetTime = 60000\<rparr>)], redis = Map.empty\<rparr>"
    by (simp add: k1_shared_limiter_def k1_limiter_def failing_request_at_def
        shared_request_at_def request_at_def empty_state_def middleware_def shared_path_def
        redis_read_def local_path_def inMemoryRateLimit_def)
  moreover have "redis_decide k1_shared_limiter (shared_request_at 10)
          (redis_get (redis empty_state) (now_shared (shared_request_at 10))
             (keyGenerator k1_shared_limiter (ctx (shared_request_at 10))),
           redis_get (redis empty_state) (now_shared (shared_request_at 10))
             (keyGenerator k1_shared_limiter (ctx (shared_request_at 10)) @ '':reset''))
          (redis empty_state) =
        (Some (CallNext (set_headers 2 1 60010)), [''k1'' \<mapsto> \<lparr>val = 1, expireAt = None\<rparr>])"
    by (simp add: k1_shared_limiter_def k1_limiter_def shared_request_at_def request_at_def
        empty_state_def redis_decide_def redis_get_def redis_live_def redis_set_def Let_def)
  ultimately show ?thesis by simp
qed


text \<open>
  C7. Every admitted request reaches \<open>next()\<close> with three headers set:
  \<open>X-RateLimit-Limit\<close>, the configured \<open>max\<close>; \<open>X-RateLimit-Remaining\<close>, not negative;
  \<open>X-RateLimit-Reset\<close>, the instant at which the window resets. On the Redis path the
  last one is the variable \<open>resetTime\<close> of line 77. With no reset time stored it is
  \<open>now + windowMs\<close> of the request at hand: two requests of one window, at 0 and 10 ms,
  report 60000 and 60010. With a stored reset time 60000 that has passed, the request at
  60001 starts a window that ends at 120001 and reports 60000. And the request that
  opens a window reports \<open>max - 1\<close> as it is (lines 148, 162 and 87), which is \<open>-1\<close> for
  \<open>max = 0\<close>.
\<close>

theorem C7_reset_header_not_the_window_reset:
  "fst (run k1_shared_limiter [shared_request_at 0, shared_request_at 10] empty_state) =
     [CallNext [(''X-RateLimit-Limit'', 2), (''X-RateLimit-Remaining'', 1),
                (''X-RateLimit-Reset'', 60000)],
      CallNext [(''X-RateLimit-Limit'', 2), (''X-RateLimit-Remaining'', 0),
                (''X-RateLimit-Reset'', 60010)]]
   \<and> fst (middleware k1_shared_limiter (shared_request_at 60001) k1_used_redis) =
       CallNext [(''X-RateLimit-Limit'', 2), (''X-RateLimit-Remaining'', 1),
                 (''X-RateLimit-Reset'', 60000)]
   \<and> redis_get (redis (snd (middleware k1_shared_limiter (shared_request_at 60001) k1_used_redis)))
        60001 ''k1:reset'' = Some 120001
   \<and> fst (middleware (rateLimit zero_env False no_options) (request_at 5) empty_state) =
       CallNext [(''X-RateLimit-Limit'', 0), (''X-RateLimit-Remaining'', - 1),
                 (''X-RateLimit-Reset'', 60005)]"
  by (simp add: rateLimit_def zero_env_def no_options_def or_number_def default_keyGenerator_def
      req_header_def k1_used_redis_def k1_shared_limiter_def k1_limiter_def
      shared_request_at_def request_at_def empty_state_def middleware_def shared_path_def
      local_path_def inMemoryRateLimit_def redis_read_def redis_decide_def redis_get_def
      redis_live_def redis_set_def redis_expire_def ceil_seconds_def set_headers_def
      header_def Let_def)

text \<open>
  C8 (amended). The middleware uses the key that the key generator returns as it is,
  the empty string included; nothing is substituted. On the local path the request is
  counted under exactly that key and no other key appears in the store; in Redis only
  that key and that key followed by \<open>:reset\<close> can change. A fixed key appears only
  inside the default key generator, which gives \<open>rate-limit:unknown\<close> when the
  \<open>x-forwarded-for\<close> header is missing or empty. The request is processed either way.
\<close>

theorem C8_key_used_as_generated:
  "(\<not> (redisClient L \<and> isReady r) \<longrightarrow>
      map_of (inMemoryStore (snd (middleware L r s))) (keyGenerator L (ctx r)) \<noteq> None
      \<and> (\<forall>k'. k' \<noteq> keyGenerator L (ctx r) \<and> map_of (inMemoryStore s) k' = None \<longrightarrow>
            map_of (inMemoryStore (snd (middleware L r s))) k' = None))
   \<and>
   (\<forall>k'. k' \<noteq> keyGenerator L (ctx r) \<and> k' \<noteq> keyGenerator L (ctx r) @ '':reset'' \<longrightarrow>
      redis (snd (middleware L r s)) k' = redis s k')
   \<and>
   (req_header c ''x-forwarded-for'' = None \<or> req_header c ''x-forwarded-for'' = Some [] \<longrightarrow>
      default_keyGenerator c = ''rate-limit:unknown'')"
proof (intro conjI impI allI)
  assume "\<not> (redisClient L \<and> isReady r)"
  then have m: "middleware L r s = local_path L r s" by (rule middleware_local)
  show "map_of (inMemoryStore (snd (middleware L r s))) (keyGenerator L (ctx r)) \<noteq> None"
    using inMemoryRateLimit_keys(1) by (simp add: m local_path_def case_prod_beta)
  fix k' assume "k' \<noteq> keyGenerator L (ctx r) \<and> map_of (inMemoryStore s) k' = None"
  then show "map_of (inMemoryStore (snd (middleware L r s))) k' = None"
    using inMemoryRateLimit_keys(2) by (simp add: m local_path_def case_prod_beta)
next
  fix k' assume "k' \<noteq> keyGenerator L (ctx r) \<and> k' \<noteq> keyGenerator L (ctx r) @ '':reset''"
  then show "redis (snd (middleware L r s)) k' = redis s k'"
    by (intro middleware_redis_frame) blast+
next
  assume "req_header c ''x-forwarded-for'' = None \<or> req_header c ''x-forwarded-for'' = Some []"
  then show "default_keyGenerator c = ''rate-limit:unknown''"
    by (rule default_keyGenerator_unknown)
qed

theorem C8_witness:
  "map_of (inMemoryStore (snd (middleware empty_key_limiter (request_at 0) empty_state))) [] \<noteq> None
   \<and> map_of (inMemoryStore (snd (middleware empty_key_limiter (request_at 0) empty_state)))
        ''unknown'' = None
   \<and> redis (snd (middleware empty_key_limiter (request_at 0) empty_state)) ''unknown'' = None
   \<and> default_keyGenerator \<lparr>req_headers = []\<rparr> = ''rate-limit:unknown''"
proof -
  have loc: "\<not> (redisClient empty_key_limiter \<and> isReady (request_at 0))"
    by (simp add: empty_key_limiter_def k1_limiter_def)
  have k: "keyGenerator empty_key_limiter (ctx (request_at 0)) = []"
    by (simp add: empty_key_limiter_def)
  have other: "''unknown'' \<noteq> keyGenerator empty_key_limiter (ctx (request_at 0))
      \<and> map_of (inMemoryStore empty_state) ''unknown'' = None"
    by (simp add: k empty_state_def)
  have other': "''unknown'' \<noteq> keyGenerator empty_key_limiter (ctx (request_at 0))
      \<and> ''unknown'' \<noteq> keyGenerator empty_key_limiter (ctx (request_at 0)) @ '':reset''"
    by (simp add: k)
  have hdr: "req_header \<lparr>req_headers = []\<rparr> ''x-forwarded-for'' = None
      \<or> req_header \<lparr>req_headers = []\<rparr> ''x-forwarded-for'' = Some []"
    by (simp add: req_header_def)
  note C8 = C8_key_used_as_generated[of empty_key_limiter "request_at 0" empty_state
      "\<lparr>req_headers = []\<rparr>"]
  from C8 loc have "map_of (inMemoryStore (snd (middleware empty_key_limiter (request_at 0) empty_state)))
      (keyGenerator empty_key_limiter (ctx (request_at 0))) \<noteq> None"
    by blast
  moreover from C8 loc other
  have "map_of (inMemoryStore (snd (middleware empty_key_limiter (request_at 0) empty_state)))
        ''unknown'' = None"
    by blast
  moreover from C8 other'
  have "redis (snd (middleware empty_key_limiter (request_at 0) empty_state)) ''unknown'' =
        redis empty_state ''unknown''"
    by blast
  moreover from C8 hdr have "default_keyGenerator \<lparr>req_headers = []\<rparr> = ''rate-limit:unknown''"
    by blast
  ultimately show ?thesis by (simp add: k empty_state_def)
qed

text \<open>
  The claim as stated fails for a custom key generator that returns the empty string:
  the request is counted under the empty key itself.
\<close>

theorem C8_counterexample:
  "keyGenerator empty_key_limiter (ctx (request_at 0)) = []
   \<and> middleware empty_key_limiter (request_at 0) empty_state =
       (CallNext (set_headers 2 1 60000),
        \<lparr>inMemoryStore = [([], \<lparr>count = 1, resetTime = 60000\<rparr>)], redis = Map.empty\<rparr>)"
  by (simp add: empty_key_limiter_def k1_limiter_def request_at_def empty_state_def
      middleware_def local_path_def inMemoryRateLimit_def)


text \<open>
  C9 (amended). Every call of \<open>inMemoryRateLimit\<close> sweeps the whole map before it
  decides: under every key other than the one being decided, the entries after the call
  are exactly the entries of before whose \<open>resetTime\<close> is not before \<open>now\<close>. When
  \<open>windowMs\<close> is not negative, the store after the call holds no entry at all whose
  \<open>resetTime\<close> is strictly less than \<open>now\<close>.
\<close>

theorem C9_no_expired_entry_after_call:
  "(\<forall>k' d. k' \<noteq> k \<longrightarrow>
      ((k', d) \<in> set (snd (inMemoryRateLimit k w m now st)) \<longleftrightarrow>
       (k', d) \<in> set st \<and> \<not> now > resetTime d))
   \<and> (0 \<le> w \<longrightarrow>
        (\<forall>(k', d) \<in> set (snd (inMemoryRateLimit k w m now st)). \<not> resetTime d < now))"
proof (intro conjI impI allI)
  fix k' d assume "k' \<noteq> k"
  then show "(k', d) \<in> set (snd (inMemoryRateLimit k w m now st)) \<longleftrightarrow>
       (k', d) \<in> set st \<and> \<not> now > resetTime d"
    by (rule inMemoryRateLimit_other_keys)
next
  assume "0 \<le> w"
  then show "\<forall>(k', d) \<in> set (snd (inMemoryRateLimit k w m now st)). \<not> resetTime d < now"
    using inMemoryRateLimit_no_expired[of w _ _ k m now st] by fastforce
qed

theorem C9_witness:
  "(''k1'', \<lparr>count = 2, resetTime = 60000\<rparr>) \<notin>
        set (snd (inMemoryRateLimit ''k2'' 60000 2 61000 two_keys_store))
   \<and> (''k2'', \<lparr>count = 2, resetTime = 70000\<rparr>) \<in>
        set (snd (inMemoryRateLimit ''k2'' 60000 2 61000 two_keys_store))
   \<and> \<not> resetTime \<lparr>count = 2, resetTime = 70000\<rparr> < 61000"
proof -
  note C9 = C9_no_expired_entry_after_call[of "''k2''" 60000 2 61000 two_keys_store]
  have w: "(0::int) \<le> 60000" by simp
  have other: "''k1'' \<noteq> ''k2''" by simp
  have mem: "(''k2'', \<lparr>count = 2, resetTime = 70000\<rparr>) \<in>
        set (snd (inMemoryRateLimit ''k2'' 60000 2 61000 two_keys_store))"
    by (simp add: inMemoryRateLimit_def two_keys_store_def)
  note swept = C9[THEN conjunct1, rule_format, OF other]
  note kept = C9[THEN conjunct2, rule_format, OF w mem]
  have a: "(''k1'', \<lparr>count = 2, resetTime = 60000\<rparr>) \<notin>
        set (snd (inMemoryRateLimit ''k2'' 60000 2 61000 two_keys_store))"
    unfolding swept by simp
  have b: "\<not> resetTime \<lparr>count = 2, resetTime = 70000\<rparr> < 61000"
    using kept by simp
  show ?thesis
    using a mem b by (intro conjI)
qed


text \<open>
  The claim as stated fails for a negative \<open>windowMs\<close> (\<open>options.windowMs = -5\<close>): the
  entry that the call itself writes has \<open>resetTime = now - 5\<close>.
\<close>

theorem C9_counterexample:
  "windowMs (rateLimit zero_env False (no_options\<lparr>opt_windowMs := Some (- 5), opt_max := Some 2\<rparr>)) = - 5
   \<and> snd (inMemoryRateLimit ''k1'' (- 5) 2 100 []) = [(''k1'', \<lparr>count = 1, resetTime = 95\<rparr>)]
   \<and> resetTime \<lparr>count = 1, resetTime = 95\<rparr> < 100"
  by (simp add: inMemoryRateLimit_def rateLimit_def or_number_def no_options_def)

text \<open>
  C10. On the Redis path the incremented count is written back only when the request
  is admitted, so that no counter stored under a key exceeds \<open>max\<close>. The reset time of
  a key is kept under that key followed by \<open>:reset\<close>, among the counters. With the
  default key generator a client that sends \<open>x-forwarded-for: a:reset\<close> is counted
  under \<open>rate-limit:a:reset\<close>, where the reset time of \<open>rate-limit:a\<close> belongs: the
  request for \<open>a\<close> reads the count \<open>1\<close> as a reset time long past and overwrites it
  with \<open>now + windowMs\<close>. The counter under \<open>rate-limit:a:reset\<close>, a key with no reset
  time of its own, is then 66000 with \<open>max = 2\<close>, and its next request is rejected.
\<close>

theorem C10_reset_key_collision:
  "fst (run default_shared_limiter
          [forwarded_request ''a:reset'' 5000, forwarded_request ''a'' 6000,
           forwarded_request ''a:reset'' 7000] empty_state) =
     [CallNext [(''X-RateLimit-Limit'', 2), (''X-RateLimit-Remaining'', 1),
                (''X-RateLimit-Reset'', 65000)],
      CallNext [(''X-RateLimit-Limit'', 2), (''X-RateLimit-Remaining'', 1),
                (''X-RateLimit-Reset'', 1)],
      CallHandler]
   \<and> redis_get (redis (snd (run default_shared_limiter
          [forwarded_request ''a:reset'' 5000, forwarded_request ''a'' 6000] empty_state)))
        6000 ''rate-limit:a:reset'' = Some 66000
   \<and> redis_get (redis (snd (run default_shared_limiter
          [forwarded_request ''a:reset'' 5000, forwarded_request ''a'' 6000] empty_state)))
        6000 ''rate-limit:a:reset:reset'' = None
   \<and> max_req default_shared_limiter = 2"
  by (simp add: default_shared_limiter_def forwarded_request_def default_keyGenerator_def
      req_header_def empty_state_def middleware_def shared_path_def local_path_def
      inMemoryRateLimit_def redis_read_def redis_decide_def redis_get_def redis_live_def
      redis_set_def redis_expire_def ceil_seconds_def set_headers_def header_def Let_def)

end
